theory Spec2Isabelle
  imports Complex_Main
begin

section \<open>Data model (types.ts)\<close>

text \<open>
  A JavaScript string is modelled as a \<^typ>\<open>string\<close>, one list element per UTF-16 code
  unit, so that \<open>s.length\<close> is \<^const>\<open>length\<close>. A finite JavaScript number is
  modelled as an exact rational: the rounding of IEEE doubles is outside this model.
  An optional field (\<open>startTime?: number\<close>) is an option value, \<open>None\<close> being
  \<open>undefined\<close>; a nullable one (\<open>string | null\<close>) likewise.
\<close>

record TextSegment =
  "text" :: string
  translation :: "string option"
  isWord :: bool
  startTime :: "rat option"
  endTime :: "rat option"

record WordPair =
  german :: string
  bulgarian :: string

section \<open>Timestamp allocation (App.tsx, calculateTimestamps)\<close>

text \<open>\<open>String.prototype.includes\<close> with a one-character needle.\<close>

definition js_includes :: "string \<Rightarrow> char \<Rightarrow> bool" where
  "js_includes s c = (c \<in> set s)"

text \<open>The callback of the first \<open>segs.map\<close>: the weight of one segment.\<close>

definition segmentWeight :: "TextSegment \<Rightarrow> nat" where
  "segmentWeight s =
     (if \<not> isWord s then
        (if js_includes (text s) CHR ''.'' \<or> js_includes (text s) CHR ''!''
            \<or> js_includes (text s) CHR ''?''
         then 12
         else if js_includes (text s) CHR '','' \<or> js_includes (text s) CHR '';''
            \<or> js_includes (text s) CHR '':''
         then 6
         else 2)
      else length (text s) + 2)"

text \<open>\<open>weights.reduce((a, b) => a + b, 0)\<close>.\<close>

definition totalWeightOf :: "nat list \<Rightarrow> nat" where
  "totalWeightOf weights = foldl (\<lambda>a b. a + b) 0 weights"

text \<open>
  Division of two JavaScript numbers. A zero divisor gives \<open>NaN\<close> or an infinity in
  JavaScript; neither is a rational, so the model returns \<open>None\<close> there and every
  caller has to deal with it.
\<close>

definition js_div :: "rat \<Rightarrow> rat \<Rightarrow> rat option" where
  "js_div a b = (if b = 0 then None else Some (a / b))"

text \<open>
  The second \<open>segs.map((s, i) => ...)\<close>. The closure variable
  \<open>currentAccumulatedTime\<close> is threaded as an argument, \<open>i\<close> is the callback's
  index. \<open>weights[i]\<close> out of range is \<open>undefined\<close> in JavaScript and the quotient
  \<open>NaN\<close>: \<open>None\<close> in the model.
\<close>

fun stampFrom ::
  "rat \<Rightarrow> nat list \<Rightarrow> nat \<Rightarrow> rat \<Rightarrow> nat \<Rightarrow> TextSegment list \<Rightarrow> TextSegment list option" where
  "stampFrom duration weights totalWeight currentAccumulatedTime i [] = Some []"
| "stampFrom duration weights totalWeight currentAccumulatedTime i (s # rest) =
     (if i < length weights then
        (case js_div (of_nat (weights ! i)) (of_nat totalWeight) of
           None \<Rightarrow> None
         | Some q \<Rightarrow>
             (let segmentDuration = q * duration;
                  start = currentAccumulatedTime;
                  end = currentAccumulatedTime + segmentDuration
              in case stampFrom duration weights totalWeight
                        (currentAccumulatedTime + segmentDuration) (i + 1) rest of
                   None \<Rightarrow> None
                 | Some out \<Rightarrow> Some (s\<lparr>startTime := Some start, endTime := Some end\<rparr> # out)))
      else None)"

definition calculateTimestamps :: "rat \<Rightarrow> TextSegment list \<Rightarrow> TextSegment list option" where
  "calculateTimestamps duration segs =
     (let weights = map segmentWeight segs;
          totalWeight = totalWeightOf weights
      in stampFrom duration weights totalWeight 0 0 segs)"


section \<open>Active-segment lookup (App.tsx, syncHighlighting)\<close>

text \<open>
  \<open>Array.prototype.findIndex\<close>: the index of the first element the predicate accepts,
  \<open>-1\<close> when there is none.
\<close>

fun findIndexFrom :: "('a \<Rightarrow> bool) \<Rightarrow> int \<Rightarrow> 'a list \<Rightarrow> int" where
  "findIndexFrom P i [] = - 1"
| "findIndexFrom P i (x # xs) = (if P x then i else findIndexFrom P (i + 1) xs)"

definition findIndex :: "('a \<Rightarrow> bool) \<Rightarrow> 'a list \<Rightarrow> int" where
  "findIndex P xs = findIndexFrom P 0 xs"

text \<open>
  The predicate of the scan:
  \<open>s.startTime !== undefined && currentTime >= s.startTime
     && currentTime <= (s.endTime || Infinity)\<close>.
  \<open>s.endTime || Infinity\<close> is \<open>Infinity\<close> when \<open>endTime\<close> is \<open>undefined\<close> or \<open>0\<close>
  (both falsy), and every finite number is below \<open>Infinity\<close>.
\<close>

definition inWindow :: "rat \<Rightarrow> TextSegment \<Rightarrow> bool" where
  "inWindow currentTime s =
     (case startTime s of
        None \<Rightarrow> False
      | Some st \<Rightarrow>
          currentTime \<ge> st \<and>
          (case endTime s of
             None \<Rightarrow> True
           | Some e \<Rightarrow> if e = 0 then True else currentTime \<le> e))"

definition activeSegmentLookup :: "rat \<Rightarrow> TextSegment list \<Rightarrow> int" where
  "activeSegmentLookup currentTime segs = findIndex (inWindow currentTime) segs"

text \<open>
  The state \<open>syncHighlighting\<close> reads and writes: the audio element behind \<open>audioRef\<close>
  (\<open>None\<close> for \<open>null\<close>) with its position and length, and the React state
  \<open>isPlaying\<close>, \<open>activeSegmentIndex\<close> (\<open>None\<close> for \<open>null\<close>) and \<open>segments\<close>.
\<close>

record AudioElement =
  currentTime :: rat
  audioLength :: rat

record Playback =
  audioRef :: "AudioElement option"
  isPlaying :: bool
  activeSegmentIndex :: "int option"
  segments :: "TextSegment list"

text \<open>One tick of the loop; rescheduling the next animation frame is left out.\<close>

definition syncHighlighting :: "Playback \<Rightarrow> Playback" where
  "syncHighlighting pb =
     (case audioRef pb of
        None \<Rightarrow> pb
      | Some audio \<Rightarrow>
          if \<not> isPlaying pb then pb
          else
            (let index = activeSegmentLookup (currentTime audio) (segments pb)
             in if index \<noteq> - 1 \<and> Some index \<noteq> activeSegmentIndex pb
                then pb\<lparr>activeSegmentIndex := Some index\<rparr>
                else if currentTime audio \<ge> audioLength audio
                then pb\<lparr>activeSegmentIndex := None, isPlaying := False\<rparr>
                else pb))"

text \<open>
  The lookup in the words of the specification, for comparison: the first segment whose
  closed window holds the position, the window of the final segment being open-ended.
\<close>

fun specLookupFrom :: "rat \<Rightarrow> int \<Rightarrow> TextSegment list \<Rightarrow> int" where
  "specLookupFrom p i [] = - 1"
| "specLookupFrom p i (s # rest) =
     (case (startTime s, endTime s) of
        (Some st, Some e) \<Rightarrow>
          if st \<le> p \<and> (p \<le> e \<or> rest = []) then i else specLookupFrom p (i + 1) rest
      | _ \<Rightarrow> specLookupFrom p (i + 1) rest)"


section \<open>Speech cues and the vocabulary session (App.tsx)\<close>

text \<open>
  The code is asynchronous: \<open>speak\<close> returns a promise, and \<open>runSuggestopediaCycle\<close>
  is an \<open>async\<close> function that suspends at each \<open>await\<close>. The model is a state machine
  over one record. It holds the React state and refs of the component, the promises
  created so far (a promise is named by its position in \<open>promises\<close>), the suspended
  invocations of \<open>runSuggestopediaCycle\<close> with the promise each one awaits, and what the
  browser holds on behalf of the code: the utterances handed to
  \<open>window.speechSynthesis\<close> and the armed timers. The browser is the environment: it
  reports the end or the failure of an utterance and the expiry of a timer as events,
  in any order. JavaScript runs each event handler and the continuations it wakes to
  completion before the next event, so one event is one step of the machine.
\<close>

datatype Step = Intro | Bulgarian | Fixation

datatype Lang = de_DE | bg_BG

datatype PromiseState = Pending | Fulfilled | Rejected

text \<open>
  The places where \<open>runSuggestopediaCycle\<close> suspends, named by what has just been
  awaited when it resumes.
\<close>

datatype Pc =
    AfterIntroSpeech
  | AfterIntroPause
  | AfterTranslationSpeech
  | AfterTranslationPause
  | AfterFixationDwell

record Run =
  run_index :: nat
  run_word :: WordPair
  run_pc :: Pc
  run_awaits :: nat

record App =
  vocabulary :: "WordPair list"
  suggestopediaActive :: bool
  suggestopediaWordIndex :: nat
  suggestopediaStep :: Step
  suggestopediaActiveRef :: bool
  currentUtteranceRef :: "nat option"
  promises :: "PromiseState list"
  runs :: "Run list"
  spoken :: "(nat \<times> string \<times> Lang \<times> rat) list"
  queue :: "nat list"
  interrupted :: "nat list"
  timers :: "(nat \<times> nat) list"
  warnings :: nat

text \<open>
  \<open>spoken\<close> lists every utterance passed to \<open>speechSynthesis.speak\<close>, with the promise
  that \<open>speak\<close> returned for it; \<open>queue\<close> holds the utterances the synthesiser is
  speaking or about to speak, \<open>interrupted\<close> those removed by \<open>cancel()\<close> whose error
  event has not been dispatched yet; \<open>timers\<close> pairs each armed \<open>setTimeout\<close> with its
  delay in milliseconds; \<open>warnings\<close> counts the calls of \<open>console.warn\<close>.
\<close>

text \<open>\<open>window.speechSynthesis.cancel()\<close>.\<close>

definition cancel :: "App \<Rightarrow> App" where
  "cancel st = st\<lparr>interrupted := interrupted st @ queue st, queue := []\<rparr>"

text \<open>
  \<open>speak(text, lang, rate)\<close>: the executor of the new promise runs at once; the result
  is the promise and the new state. \<open>speechSynthesis.speaking\<close> is read as
  "the queue is not empty".
\<close>

definition speak :: "string \<Rightarrow> Lang \<Rightarrow> rat \<Rightarrow> App \<Rightarrow> nat \<times> App" where
  "speak txt lang rate st =
     (let st1 = (if queue st \<noteq> [] then cancel st else st);
          p = length (promises st1)
      in (p, st1\<lparr>promises := promises st1 @ [Pending],
                 currentUtteranceRef := Some p,
                 spoken := spoken st1 @ [(p, txt, lang, rate)],
                 queue := queue st1 @ [p]\<rparr>))"

text \<open>\<open>new Promise(r => setTimeout(r, ms))\<close>.\<close>

definition sleep :: "nat \<Rightarrow> App \<Rightarrow> nat \<times> App" where
  "sleep ms st =
     (let p = length (promises st)
      in (p, st\<lparr>promises := promises st @ [Pending], timers := timers st @ [(p, ms)]\<rparr>))"

text \<open>Calling the \<open>resolve\<close> function of promise \<open>p\<close>: a settled promise stays as it is.\<close>

definition resolve :: "nat \<Rightarrow> App \<Rightarrow> App" where
  "resolve p st =
     (if p < length (promises st) \<and> promises st ! p = Pending
      then st\<lparr>promises := (promises st)[p := Fulfilled]\<rparr>
      else st)"

definition stopSuggestopedia :: "App \<Rightarrow> App" where
  "stopSuggestopedia st =
     cancel (st\<lparr>suggestopediaActive := False, suggestopediaActiveRef := False\<rparr>)"

text \<open>
  \<open>runSuggestopediaCycle(index)\<close> up to its first \<open>await\<close>. An element of \<open>vocabulary\<close>
  in range is an object, hence truthy, so \<open>!vocabulary[index]\<close> adds nothing to
  \<open>index >= vocabulary.length\<close>. The helper \<open>shouldContinue\<close> is never called and is
  left out. The invocation is then suspended on the promise of the first speech.
\<close>

definition runSuggestopediaCycle :: "nat \<Rightarrow> App \<Rightarrow> App" where
  "runSuggestopediaCycle index st =
     (let st1 = st\<lparr>suggestopediaWordIndex := index\<rparr>
      in if index \<ge> length (vocabulary st1) \<or> \<not> suggestopediaActiveRef st1
         then (if index \<ge> length (vocabulary st1) then stopSuggestopedia st1 else st1)
         else
           (let word = vocabulary st1 ! index;
                st2 = st1\<lparr>suggestopediaStep := Intro\<rparr>;
                (p, st3) = speak (german word) de_DE (4 / 5) st2
            in st3\<lparr>runs := runs st3 @
                 [\<lparr>run_index = index, run_word = word,
                   run_pc = AfterIntroSpeech, run_awaits = p\<rparr>]\<rparr>))"

text \<open>
  The rest of \<open>runSuggestopediaCycle\<close>, from the \<open>await\<close> at which the invocation \<open>r\<close>
  was suspended to the next one (or to its return).
\<close>

definition resume :: "Run \<Rightarrow> App \<Rightarrow> App" where
  "resume r st =
     (case run_pc r of
        AfterIntroSpeech \<Rightarrow>
          if \<not> suggestopediaActiveRef st then st
          else
            (let (p, st1) = sleep 500 st
             in st1\<lparr>runs := runs st1 @ [r\<lparr>run_pc := AfterIntroPause, run_awaits := p\<rparr>]\<rparr>)
      | AfterIntroPause \<Rightarrow>
          if \<not> suggestopediaActiveRef st then st
          else
            (let st1 = st\<lparr>suggestopediaStep := Bulgarian\<rparr>;
                 (p, st2) = speak (bulgarian (run_word r)) bg_BG 1 st1
             in st2\<lparr>runs := runs st2 @
                  [r\<lparr>run_pc := AfterTranslationSpeech, run_awaits := p\<rparr>]\<rparr>)
      | AfterTranslationSpeech \<Rightarrow>
          (let (p, st1) = sleep 500 st
           in st1\<lparr>runs := runs st1 @
                [r\<lparr>run_pc := AfterTranslationPause, run_awaits := p\<rparr>]\<rparr>)
      | AfterTranslationPause \<Rightarrow>
          if \<not> suggestopediaActiveRef st then st
          else
            (let st1 = st\<lparr>suggestopediaStep := Fixation\<rparr>;
                 (u, st2) = speak (german (run_word r)) de_DE (4 / 5) st1;
                 (p, st3) = sleep 4500 st2
             in st3\<lparr>runs := runs st3 @ [r\<lparr>run_pc := AfterFixationDwell, run_awaits := p\<rparr>]\<rparr>)
      | AfterFixationDwell \<Rightarrow>
          if \<not> suggestopediaActiveRef st then st
          else runSuggestopediaCycle (run_index r + 1) st)"

definition startSuggestopedia :: "App \<Rightarrow> App" where
  "startSuggestopedia st =
     runSuggestopediaCycle 0
       (st\<lparr>suggestopediaActive := True, suggestopediaActiveRef := True,
           suggestopediaWordIndex := 0\<rparr>)"

definition skipToNextWord :: "App \<Rightarrow> App" where
  "skipToNextWord st =
     (let st1 = cancel st;
          nextIndex = suggestopediaWordIndex st1 + 1
      in if nextIndex < length (vocabulary st1)
         then runSuggestopediaCycle nextIndex (st1\<lparr>suggestopediaWordIndex := nextIndex\<rparr>)
         else stopSuggestopedia st1)"

text \<open>
  Promise \<open>p\<close> has been fulfilled: the invocations awaiting it continue, in the order in
  which they were suspended.
\<close>

definition wake :: "nat \<Rightarrow> App \<Rightarrow> App" where
  "wake p st =
     fold resume (filter (\<lambda>r. run_awaits r = p) (runs st))
       (st\<lparr>runs := filter (\<lambda>r. run_awaits r \<noteq> p) (runs st)\<rparr>)"

text \<open>The handlers that \<open>speak\<close> installs on the utterance of promise \<open>p\<close>.\<close>

definition onend :: "nat \<Rightarrow> App \<Rightarrow> App" where
  "onend p st = wake p (resolve p (st\<lparr>currentUtteranceRef := None\<rparr>))"

definition onerror :: "nat \<Rightarrow> App \<Rightarrow> App" where
  "onerror p st =
     wake p (resolve p (st\<lparr>warnings := warnings st + 1, currentUtteranceRef := None\<rparr>))"

text \<open>
  What can happen to the component: the three buttons, and the browser's events. The
  synthesiser reports the end of an utterance it still holds, or an error for one it
  holds or has dropped after \<open>cancel()\<close>; a timer fires once. An event that cannot
  happen in the current state leaves it unchanged.
\<close>

datatype Event =
    ClickStart
  | ClickStop
  | ClickSkip
  | SpeechEnd nat
  | SpeechError nat
  | Timeout nat

definition forget :: "nat \<Rightarrow> App \<Rightarrow> App" where
  "forget p st = st\<lparr>queue := removeAll p (queue st), interrupted := removeAll p (interrupted st)\<rparr>"

fun deliver :: "Event \<Rightarrow> App \<Rightarrow> App" where
  "deliver ClickStart st = startSuggestopedia st"
| "deliver ClickStop st = stopSuggestopedia st"
| "deliver ClickSkip st = skipToNextWord st"
| "deliver (SpeechEnd p) st =
     (if p \<in> set (queue st) then onend p (forget p st) else st)"
| "deliver (SpeechError p) st =
     (if p \<in> set (queue st) \<or> p \<in> set (interrupted st) then onerror p (forget p st) else st)"
| "deliver (Timeout p) st =
     (if p \<in> fst ` set (timers st)
      then wake p (resolve p (st\<lparr>timers := filter (\<lambda>t. fst t \<noteq> p) (timers st)\<rparr>))
      else st)"

definition deliverAll :: "Event list \<Rightarrow> App \<Rightarrow> App" where
  "deliverAll evs st = fold deliver evs st"

text \<open>
  Letting the session run: the browser reports, each time, the end of what the oldest
  suspended invocation awaits (the speech it waits for ends, the timer it waits for
  fires). The first argument bounds the number of events. The end of the reinforcement
  cue of the fixation step, which nothing awaits, is not among them.
\<close>

definition awaitedEvent :: "Run \<Rightarrow> Event" where
  "awaitedEvent r =
     (case run_pc r of
        AfterIntroSpeech \<Rightarrow> SpeechEnd (run_awaits r)
      | AfterTranslationSpeech \<Rightarrow> SpeechEnd (run_awaits r)
      | _ \<Rightarrow> Timeout (run_awaits r))"

fun letRun :: "nat \<Rightarrow> App \<Rightarrow> App" where
  "letRun 0 st = st"
| "letRun (Suc n) st =
     (case runs st of
        [] \<Rightarrow> st
      | r # _ \<Rightarrow> letRun n (deliver (awaitedEvent r) st))"

text \<open>The component as mounted, with a loaded vocabulary and no session yet.\<close>

definition mounted :: "WordPair list \<Rightarrow> App" where
  "mounted vocab =
     \<lparr>vocabulary = vocab, suggestopediaActive = False, suggestopediaWordIndex = 0,
      suggestopediaStep = Intro, suggestopediaActiveRef = False,
      currentUtteranceRef = None, promises = [], runs = [], spoken = [],
      queue = [], interrupted = [], timers = [], warnings = 0\<rparr>"

section \<open>Notions used to state the properties\<close>

text \<open>
  The share of the duration that segment \<open>i\<close> of \<open>segs\<close> receives: its weight over the
  total weight, times the duration.
\<close>

definition share :: "rat \<Rightarrow> TextSegment list \<Rightarrow> nat \<Rightarrow> rat" where
  "share duration segs i =
     of_nat (segmentWeight (segs ! i)) / of_nat (totalWeightOf (map segmentWeight segs)) * duration"

definition shareAt :: "rat \<Rightarrow> nat list \<Rightarrow> nat \<Rightarrow> nat \<Rightarrow> rat" where
  "shareAt duration weights totalWeight i =
     of_nat (weights ! i) / of_nat totalWeight * duration"

text \<open>A segment without timing, and the example list of the specification.\<close>

definition seg :: "string \<Rightarrow> bool \<Rightarrow> TextSegment" where
  "seg t w = \<lparr>text = t, translation = None, isWord = w, startTime = None, endTime = None\<rparr>"

definition derHund :: "TextSegment list" where
  "derHund = [seg ''Der'' True, seg ''Hund'' True, seg ''.'' False]"

text \<open>
  The weight in the words of the specification: a punctuation segment that \<^emph>\<open>is\<close> a
  sentence terminator weighs 12, one that \<^emph>\<open>is\<close> a clause separator 6, any other 2.
\<close>

definition specWeight :: "TextSegment \<Rightarrow> nat" where
  "specWeight s =
     (if isWord s then length (text s) + 2
      else if text s \<in> {''.'', ''!'', ''?''} then 12
      else if text s \<in> {'','', '';'', '':''} then 6
      else 2)"

definition windows :: "TextSegment list \<Rightarrow> (rat option \<times> rat option) list" where
  "windows segs = map (\<lambda>s. (startTime s, endTime s)) segs"



section \<open>Notions used to state the properties of the session\<close>

text \<open>
  What the overlay shows and says is the same in both states.
\<close>

definition sameDisplay :: "App \<Rightarrow> App \<Rightarrow> bool" where
  "sameDisplay s s' =
     (suggestopediaActive s' = suggestopediaActive s \<and>
      suggestopediaActiveRef s' = suggestopediaActiveRef s \<and>
      suggestopediaWordIndex s' = suggestopediaWordIndex s \<and>
      suggestopediaStep s' = suggestopediaStep s \<and>
      spoken s' = spoken s \<and>
      vocabulary s' = vocabulary s)"

text \<open>
  A vocabulary of three words.
\<close>

definition hundKatzeHaus :: "WordPair list" where
  "hundKatzeHaus =
     [\<lparr>german = ''Hund'', bulgarian = ''kuche''\<rparr>,
      \<lparr>german = ''Katze'', bulgarian = ''kotka''\<rparr>,
      \<lparr>german = ''Haus'', bulgarian = ''kashta''\<rparr>]"

text \<open>
  No session: both the React state and the ref say so.
\<close>

definition inactive :: "App \<Rightarrow> bool" where
  "inactive s = (\<not> suggestopediaActive s \<and> \<not> suggestopediaActiveRef s)"

text \<open>
  What an invocation suspended at a given place awaits (a speech or a timer), and the
  step on display while it is suspended there.
\<close>

definition awaitsSpeech :: "Pc \<Rightarrow> bool" where
  "awaitsSpeech pc = (pc = AfterIntroSpeech \<or> pc = AfterTranslationSpeech)"

definition stepOf :: "Pc \<Rightarrow> Step" where
  "stepOf pc =
     (case pc of
        AfterIntroSpeech \<Rightarrow> Intro
      | AfterIntroPause \<Rightarrow> Intro
      | AfterTranslationSpeech \<Rightarrow> Bulgarian
      | AfterTranslationPause \<Rightarrow> Bulgarian
      | AfterFixationDwell \<Rightarrow> Fixation)"

text \<open>
  The place of suspension after \<open>k\<close> further events of one cycle.
\<close>

definition pcAt :: "nat \<Rightarrow> Pc" where
  "pcAt k =
     (if k = 0 then AfterIntroSpeech
      else if k = 1 then AfterIntroPause
      else if k = 2 then AfterTranslationSpeech
      else if k = 3 then AfterTranslationPause
      else AfterFixationDwell)"

text \<open>
  A session with exactly one suspended invocation: it presents word \<open>i\<close>, is suspended at
  \<open>pc\<close>, and what it awaits is still to come.
\<close>

definition runningAt :: "nat \<Rightarrow> Pc \<Rightarrow> App \<Rightarrow> bool" where
  "runningAt i pc s =
     (suggestopediaActive s \<and> suggestopediaActiveRef s \<and>
      suggestopediaWordIndex s = i \<and> i < length (vocabulary s) \<and>
      suggestopediaStep s = stepOf pc \<and>
      (case runs s of
         [r] \<Rightarrow>
           run_index r = i \<and> run_word r = vocabulary s ! i \<and> run_pc r = pc \<and>
           (if awaitsSpeech pc then run_awaits r \<in> set (queue s)
            else run_awaits r \<in> fst ` set (timers s))
       | _ \<Rightarrow> False))"

text \<open>
  The three utterances of one cycle, and the utterances issued once \<open>k\<close> awaited events
  have been delivered to an uninterrupted session.
\<close>

definition cues :: "WordPair \<Rightarrow> (string \<times> Lang \<times> rat) list" where
  "cues w = [(german w, de_DE, 4 / 5), (bulgarian w, bg_BG, 1), (german w, de_DE, 4 / 5)]"

definition heard :: "nat \<Rightarrow> nat" where
  "heard m = (if m < 2 then 1 else if m < 4 then 2 else 3)"

definition saidUpTo :: "WordPair list \<Rightarrow> nat \<Rightarrow> (string \<times> Lang \<times> rat) list" where
  "saidUpTo vocab k =
     concat (map cues (take (k div 5) vocab)) @ take (heard (k mod 5)) (cues (vocab ! (k div 5)))"

text \<open>
  The events that can happen in a state, and the event sequences that can happen from it.
\<close>

fun enabled :: "Event \<Rightarrow> App \<Rightarrow> bool" where
  "enabled ClickStart st = True"
| "enabled ClickStop st = True"
| "enabled ClickSkip st = True"
| "enabled (SpeechEnd p) st = (p \<in> set (queue st))"
| "enabled (SpeechError p) st = (p \<in> set (queue st) \<or> p \<in> set (interrupted st))"
| "enabled (Timeout p) st = (p \<in> fst ` set (timers st))"

fun feasible :: "Event list \<Rightarrow> App \<Rightarrow> bool" where
  "feasible [] st = True"
| "feasible (e # es) st = (enabled e st \<and> feasible es (deliver e st))"

text \<open>
  The synthesiser still owes an event for utterance \<open>p\<close>; promise \<open>p\<close> has only moved
  from pending to fulfilled, and \<open>p\<close> is still owed its event if it was; promise \<open>p\<close>
  is fulfilled, or pending with its event still owed.
\<close>

definition held :: "nat \<Rightarrow> App \<Rightarrow> bool" where
  "held p s = (p \<in> set (queue s) \<or> p \<in> set (interrupted s))"

definition keeps :: "nat \<Rightarrow> App \<Rightarrow> App \<Rightarrow> bool" where
  "keeps p s s' =
     (p < length (promises s') \<and>
      (promises s' ! p = promises s ! p \<or>
       (promises s ! p = Pending \<and> promises s' ! p = Fulfilled)) \<and>
      (held p s \<longrightarrow> held p s'))"


text \<open>
  A session of three words that is skipped twice in quick succession, with everything
  the browser then reports, in the order of time: a cancelled utterance reports its
  error at once, the 500 ms pauses end in the order in which they began, and the last
  event is the end of the 4.5 s dwell of the first invocation.
\<close>

definition doubleSkip :: "Event list" where
  "doubleSkip =
     [ClickStart, ClickSkip, SpeechError 0, ClickSkip, SpeechError 1,
      Timeout 2, SpeechError 3, Timeout 4, SpeechError 5, Timeout 6, SpeechError 7,
      Timeout 8, SpeechError 9, Timeout 10, SpeechError 11, Timeout 13, SpeechError 14]"

section \<open>The allocator: weights, shares and windows\<close>

lemma foldl_plus_sum_list: "foldl (\<lambda>a b. a + b) (a::nat) ws = a + sum_list ws"
  by (induction ws arbitrary: a) simp_all

lemma totalWeightOf_sum_list: "totalWeightOf ws = sum_list ws"
  by (simp add: totalWeightOf_def foldl_plus_sum_list)

lemma segmentWeight_ge2: "2 \<le> segmentWeight s"
  by (simp add: segmentWeight_def)

lemma sum_list_weights_ge: "2 * length segs \<le> sum_list (map segmentWeight segs)"
proof (induction segs)
  case Nil
  show ?case by simp
next
  case (Cons s segs)
  have "2 \<le> segmentWeight s" by (rule segmentWeight_ge2)
  with Cons show ?case by simp
qed

lemma totalWeight_pos:
  assumes "segs \<noteq> []"
  shows "0 < totalWeightOf (map segmentWeight segs)"
proof -
  have "0 < length segs" using assms by simp
  moreover have "2 * length segs \<le> sum_list (map segmentWeight segs)"
    by (rule sum_list_weights_ge)
  ultimately have "0 < sum_list (map segmentWeight segs)" by linarith
  then show ?thesis by (simp add: totalWeightOf_sum_list)
qed

lemma stampFrom_Some:
  assumes "totalWeight \<noteq> 0"
  shows "i + length segs \<le> length weights \<Longrightarrow>
         \<exists>out. stampFrom duration weights totalWeight acc i segs = Some out"
proof (induction segs arbitrary: acc i)
  case Nil
  show ?case by simp
next
  case (Cons s rest)
  from Cons.prems have i: "i < length weights" and r: "(i + 1) + length rest \<le> length weights"
    by simp_all
  obtain q where q: "js_div (of_nat (weights ! i)) (of_nat totalWeight) = Some q"
    using assms by (simp add: js_div_def)
  from Cons.IH [OF r] obtain out where
    "stampFrom duration weights totalWeight (acc + q * duration) (i + 1) rest = Some out"
    by blast
  with i q show ?case by (simp add: Let_def)
qed

lemma stampFrom_length:
  "stampFrom duration weights totalWeight acc i segs = Some out \<Longrightarrow> length out = length segs"
proof (induction segs arbitrary: acc i out)
  case Nil
  then show ?case by simp
next
  case (Cons s rest)
  then show ?case
    by (auto simp: Let_def split: if_splits option.splits)
qed

lemma stampFrom_nth:
  "stampFrom duration weights totalWeight acc i segs = Some out \<Longrightarrow> k < length segs \<Longrightarrow>
   out ! k = (segs ! k)
     \<lparr>startTime := Some (acc + (\<Sum>j<k. shareAt duration weights totalWeight (i + j))),
      endTime := Some (acc + (\<Sum>j<Suc k. shareAt duration weights totalWeight (i + j)))\<rparr>"
proof (induction segs arbitrary: acc i out k)
  case Nil
  then show ?case by simp
next
  case (Cons s rest)
  from Cons.prems(1) obtain q out' where
    i: "i < length weights" and
    q: "js_div (of_nat (weights ! i)) (of_nat totalWeight) = Some q" and
    rec: "stampFrom duration weights totalWeight (acc + q * duration) (i + 1) rest = Some out'" and
    out: "out = s\<lparr>startTime := Some acc, endTime := Some (acc + q * duration)\<rparr> # out'"
    by (auto simp: Let_def split: if_splits option.splits)
  from q have qd: "q * duration = shareAt duration weights totalWeight i"
    by (auto simp: js_div_def shareAt_def split: if_splits)
  show ?case
  proof (cases k)
    case 0
    with out qd show ?thesis by simp
  next
    case (Suc k')
    with Cons.prems(2) have k': "k' < length rest" by simp
    have shift: "\<And>n. (\<Sum>j<Suc n. shareAt duration weights totalWeight (i + j)) =
        shareAt duration weights totalWeight i + (\<Sum>j<n. shareAt duration weights totalWeight (i + 1 + j))"
      using sum.lessThan_Suc_shift [of "\<lambda>j. shareAt duration weights totalWeight (i + j)"]
      by simp
    from Cons.IH [OF rec k'] have
      "out' ! k' = (rest ! k')
         \<lparr>startTime := Some (acc + q * duration + (\<Sum>j<k'. shareAt duration weights totalWeight (i + 1 + j))),
          endTime := Some (acc + q * duration + (\<Sum>j<Suc k'. shareAt duration weights totalWeight (i + 1 + j)))\<rparr>" .
    then show ?thesis
      unfolding Suc out qd shift [of "Suc k'"] shift [of k'] by (simp add: add.assoc)
  qed
qed



lemma calculateTimestamps_Some: "\<exists>out. calculateTimestamps duration segs = Some out"
proof (cases "segs = []")
  case True
  then show ?thesis by (simp add: calculateTimestamps_def)
next
  case False
  then have "totalWeightOf (map segmentWeight segs) \<noteq> 0"
    using totalWeight_pos [of segs] by simp
  then show ?thesis
    unfolding calculateTimestamps_def Let_def
    by (rule stampFrom_Some) simp
qed

lemma calculateTimestamps_length:
  "calculateTimestamps duration segs = Some out \<Longrightarrow> length out = length segs"
  unfolding calculateTimestamps_def Let_def by (rule stampFrom_length)

lemma calculateTimestamps_nth:
  assumes "calculateTimestamps duration segs = Some out" and "k < length segs"
  shows "out ! k = (segs ! k)
     \<lparr>startTime := Some (\<Sum>j<k. share duration segs j),
      endTime := Some ((\<Sum>j<k. share duration segs j) + share duration segs k)\<rparr>"
proof -
  let ?ws = "map segmentWeight segs"
  let ?T = "totalWeightOf ?ws"
  have sh: "\<And>j. j \<le> k \<Longrightarrow> shareAt duration ?ws ?T j = share duration segs j"
    using assms(2) by (simp add: shareAt_def share_def)
  have s1: "(\<Sum>j<k. shareAt duration ?ws ?T (0 + j)) = (\<Sum>j<k. share duration segs j)"
    by (rule sum.cong) (simp_all add: sh)
  have s2: "(\<Sum>j<Suc k. shareAt duration ?ws ?T (0 + j)) = (\<Sum>j<Suc k. share duration segs j)"
    by (rule sum.cong) (simp_all add: sh)
  from assms have "stampFrom duration ?ws ?T 0 0 segs = Some out"
    by (simp add: calculateTimestamps_def Let_def)
  from stampFrom_nth [OF this assms(2)] show ?thesis
    unfolding s1 s2 by simp
qed





lemma derHund_23:
  "map_option windows (calculateTimestamps 23 derHund) =
     Some [(Some 0, Some 5), (Some 5, Some 11), (Some 11, Some 23)]"
  by (simp add: calculateTimestamps_def derHund_def seg_def segmentWeight_def js_includes_def
      totalWeightOf_def js_div_def windows_def)

text \<open>
  Claim C2, as stated, fails: a segment that is not a word and whose text is \<open>3.5\<close> is
  neither a sentence terminator nor a clause separator, so the stated rule gives it the
  weight 2; the code finds a \<open>.\<close> in the text and gives it 12.
\<close>
theorem segmentWeight_differs_from_specWeight:
  "segmentWeight (seg ''3.5'' False) = 12 \<and> specWeight (seg ''3.5'' False) = 2"
  by (simp add: segmentWeight_def specWeight_def seg_def js_includes_def)

text \<open>
  Claim C2, amended: a word weighs the length of its text plus 2; a segment that is not
  a word weighs 12 if its text contains \<open>.\<close>, \<open>!\<close> or \<open>?\<close>, otherwise 6 if it
  contains \<open>,\<close>, \<open>;\<close> or \<open>:\<close>, otherwise 2. Segment \<open>i\<close> starts at the sum of the
  shares of the segments before it and ends one share later, the share being weight
  over total weight times the duration. For \<open>Der\<close>, \<open>Hund\<close>, \<open>.\<close> and 23 seconds the
  windows are 0 to 5, 5 to 11 and 11 to 23.
\<close>
theorem calculateTimestamps_weights_and_shares:
  "(isWord s \<longrightarrow> segmentWeight s = length (text s) + 2) \<and>
   (\<not> isWord s \<longrightarrow> segmentWeight s =
      (if CHR ''.'' \<in> set (text s) \<or> CHR ''!'' \<in> set (text s) \<or> CHR ''?'' \<in> set (text s) then 12
       else if CHR '','' \<in> set (text s) \<or> CHR '';'' \<in> set (text s) \<or> CHR '':'' \<in> set (text s) then 6
       else 2)) \<and>
   (\<exists>out. calculateTimestamps duration segs = Some out \<and> length out = length segs \<and>
      (\<forall>i<length segs.
         startTime (out ! i) = Some (\<Sum>j<i. share duration segs j) \<and>
         endTime (out ! i) = Some ((\<Sum>j<i. share duration segs j) + share duration segs i))) \<and>
   map_option windows (calculateTimestamps 23 derHund) =
     Some [(Some 0, Some 5), (Some 5, Some 11), (Some 11, Some 23)]"
proof -
  obtain out where out: "calculateTimestamps duration segs = Some out"
    using calculateTimestamps_Some by blast
  have len: "length out = length segs" using out by (rule calculateTimestamps_length)
  have times: "\<forall>i<length segs.
         startTime (out ! i) = Some (\<Sum>j<i. share duration segs j) \<and>
         endTime (out ! i) = Some ((\<Sum>j<i. share duration segs j) + share duration segs i)"
    using calculateTimestamps_nth [OF out] by simp
  have w: "isWord s \<longrightarrow> segmentWeight s = length (text s) + 2"
    by (simp add: segmentWeight_def)
  have p: "\<not> isWord s \<longrightarrow> segmentWeight s =
      (if CHR ''.'' \<in> set (text s) \<or> CHR ''!'' \<in> set (text s) \<or> CHR ''?'' \<in> set (text s) then 12
       else if CHR '','' \<in> set (text s) \<or> CHR '';'' \<in> set (text s) \<or> CHR '':'' \<in> set (text s) then 6
       else 2)"
    by (simp add: segmentWeight_def js_includes_def)
  from w p out len times derHund_23 show ?thesis by blast
qed

text \<open>Claim C2: the amended statement at the word \<open>Hund\<close> and the example list.\<close>
theorem calculateTimestamps_weights_and_shares_witness:
  "isWord (seg ''Hund'' True) \<and> segmentWeight (seg ''Hund'' True) = 6 \<and>
   map_option windows (calculateTimestamps 23 derHund) =
     Some [(Some 0, Some 5), (Some 5, Some 11), (Some 11, Some 23)]"
  using calculateTimestamps_weights_and_shares [of "seg ''Hund'' True" 23 derHund]
  by (simp add: seg_def)

text \<open>
  Claim C9: the allocator returns a list of the same length, and at each position the
  output segment is the input segment with \<open>startTime\<close> and \<open>endTime\<close> set: \<open>text\<close>,
  \<open>isWord\<close> and \<open>translation\<close> are those of the input.
\<close>
theorem calculateTimestamps_frame:
  "\<exists>out. calculateTimestamps duration segs = Some out \<and> length out = length segs \<and>
     (\<forall>i<length segs.
        text (out ! i) = text (segs ! i) \<and>
        isWord (out ! i) = isWord (segs ! i) \<and>
        translation (out ! i) = translation (segs ! i) \<and>
        startTime (out ! i) \<noteq> None \<and> endTime (out ! i) \<noteq> None \<and>
        out ! i = (segs ! i)\<lparr>startTime := startTime (out ! i), endTime := endTime (out ! i)\<rparr>)"
proof -
  obtain out where out: "calculateTimestamps duration segs = Some out"
    using calculateTimestamps_Some by blast
  have len: "length out = length segs" using out by (rule calculateTimestamps_length)
  have "\<forall>i<length segs.
        text (out ! i) = text (segs ! i) \<and>
        isWord (out ! i) = isWord (segs ! i) \<and>
        translation (out ! i) = translation (segs ! i) \<and>
        startTime (out ! i) \<noteq> None \<and> endTime (out ! i) \<noteq> None \<and>
        out ! i = (segs ! i)\<lparr>startTime := startTime (out ! i), endTime := endTime (out ! i)\<rparr>"
    using calculateTimestamps_nth [OF out] by simp
  with out len show ?thesis by blast
qed

text \<open>Claim C9 at the example list, positions 1 and 2.\<close>
theorem calculateTimestamps_frame_witness:
  "\<exists>out. calculateTimestamps 23 derHund = Some out \<and> length out = 3 \<and>
     text (out ! 1) = ''Hund'' \<and> isWord (out ! 1) \<and> translation (out ! 1) = None \<and>
     text (out ! 2) = ''.'' \<and> \<not> isWord (out ! 2) \<and> translation (out ! 2) = None"
proof -
  from calculateTimestamps_frame [of 23 derHund] obtain out where
    out: "calculateTimestamps 23 derHund = Some out" and len: "length out = length derHund" and
    fr: "\<forall>i<length derHund. text (out ! i) = text (derHund ! i) \<and>
        isWord (out ! i) = isWord (derHund ! i) \<and>
        translation (out ! i) = translation (derHund ! i)"
    by blast
  have l3: "length out = 3" using len by (simp add: derHund_def)
  have f1: "text (out ! 1) = ''Hund'' \<and> isWord (out ! 1) \<and> translation (out ! 1) = None"
    using fr by (simp add: derHund_def seg_def)
  have f2: "text (out ! 2) = ''.'' \<and> \<not> isWord (out ! 2) \<and> translation (out ! 2) = None"
    using fr by (simp add: derHund_def seg_def)
  from out l3 f1 f2 show ?thesis by blast
qed

text \<open>
  Claim C10: every weight is at least 2; for a list that is not empty the total weight
  is positive and no division by it fails; the allocator never fails; for the empty
  list the total is 0 and the result is the empty list all the same, no division being
  made.
\<close>
theorem segmentWeight_positive_total:
  "2 \<le> segmentWeight s \<and>
   (segs \<noteq> [] \<longrightarrow>
      0 < totalWeightOf (map segmentWeight segs) \<and>
      (\<forall>i<length segs.
         js_div (of_nat (map segmentWeight segs ! i))
                (of_nat (totalWeightOf (map segmentWeight segs))) \<noteq> None)) \<and>
   calculateTimestamps duration segs \<noteq> None \<and>
   totalWeightOf (map segmentWeight []) = 0 \<and>
   calculateTimestamps duration [] = Some []"
proof -
  have a: "2 \<le> segmentWeight s" by (rule segmentWeight_ge2)
  have b: "segs \<noteq> [] \<longrightarrow>
      0 < totalWeightOf (map segmentWeight segs) \<and>
      (\<forall>i<length segs.
         js_div (of_nat (map segmentWeight segs ! i))
                (of_nat (totalWeightOf (map segmentWeight segs))) \<noteq> None)"
    using totalWeight_pos [of segs] by (auto simp: js_div_def)
  have c: "calculateTimestamps duration segs \<noteq> None"
    using calculateTimestamps_Some [of duration segs] by auto
  have d: "totalWeightOf (map segmentWeight []) = 0" by (simp add: totalWeightOf_def)
  have e: "calculateTimestamps duration [] = Some []" by (simp add: calculateTimestamps_def)
  from a b c d e show ?thesis by blast
qed

text \<open>Claim C10 at the example list: the total is 23 and the last quotient is 12/23.\<close>
theorem segmentWeight_positive_total_witness:
  "derHund \<noteq> [] \<and> totalWeightOf (map segmentWeight derHund) = 23 \<and>
   js_div (of_nat (map segmentWeight derHund ! 2))
          (of_nat (totalWeightOf (map segmentWeight derHund))) = Some (12 / 23)"
proof -
  have ne: "derHund \<noteq> []" by (simp add: derHund_def)
  have "0 < totalWeightOf (map segmentWeight derHund)"
    using segmentWeight_positive_total [of "seg ''.'' False" derHund 23] ne by blast
  moreover have "totalWeightOf (map segmentWeight derHund) = 23"
    by (simp add: derHund_def seg_def segmentWeight_def js_includes_def totalWeightOf_def)
  moreover have "map segmentWeight derHund ! 2 = 12"
    by (simp add: derHund_def seg_def segmentWeight_def js_includes_def)
  ultimately show ?thesis using ne by (simp add: js_div_def)
qed

section \<open>The allocator: order, coverage and the lookup\<close>













lemma derHund_stamped:
  "calculateTimestamps 23 derHund =
     Some [(seg ''Der'' True)\<lparr>startTime := Some 0, endTime := Some 5\<rparr>,
           (seg ''Hund'' True)\<lparr>startTime := Some 5, endTime := Some 11\<rparr>,
           (seg ''.'' False)\<lparr>startTime := Some 11, endTime := Some 23\<rparr>]"
  by (simp add: calculateTimestamps_def derHund_def seg_def segmentWeight_def js_includes_def
      totalWeightOf_def js_div_def)


text \<open>
  Past the duration the two lookups part: the scan of the code finds nothing at 24
  seconds, the lookup worded as in the specification still answers with the final
  segment. Before the end of the audio, a tick of the loop shows the index the scan
  has found.
\<close>

lemma lookup_past_duration:
  "map_option (activeSegmentLookup 24) (calculateTimestamps 23 derHund) = Some (- 1) \<and>
   map_option (specLookupFrom 24 0) (calculateTimestamps 23 derHund) = Some 2"
  unfolding derHund_stamped
  by (simp add: activeSegmentLookup_def findIndex_def inWindow_def seg_def)

lemma syncHighlighting_shows_lookup:
  assumes "audioRef pb = Some audio" and "isPlaying pb"
    and "activeSegmentLookup (currentTime audio) (segments pb) = int i"
    and "currentTime audio < audioLength audio"
  shows "activeSegmentIndex (syncHighlighting pb) = Some (int i)"
  using assms by (cases "activeSegmentIndex pb = Some (int i)") (simp_all add: syncHighlighting_def)

section \<open>The vocabulary session\<close>

lemma sameDisplay_refl: "sameDisplay s s"
  by (simp add: sameDisplay_def)

lemma sameDisplay_trans: "sameDisplay a b \<Longrightarrow> sameDisplay b c \<Longrightarrow> sameDisplay a c"
  by (simp add: sameDisplay_def)

lemma resume_inactive:
  "\<not> suggestopediaActiveRef s \<Longrightarrow> sameDisplay s (resume r s)"
  by (cases "run_pc r") (simp_all add: resume_def sameDisplay_def sleep_def Let_def)

lemma fold_resume_inactive:
  "\<not> suggestopediaActiveRef s \<Longrightarrow> sameDisplay s (fold resume rs s)"
proof (induction rs arbitrary: s)
  case Nil
  show ?case by (simp add: sameDisplay_refl)
next
  case (Cons r rs)
  have one: "sameDisplay s (resume r s)" using Cons.prems by (rule resume_inactive)
  then have "\<not> suggestopediaActiveRef (resume r s)"
    using Cons.prems by (simp add: sameDisplay_def)
  then have "sameDisplay (resume r s) (fold resume rs (resume r s))" by (rule Cons.IH)
  with one show ?case by (auto intro: sameDisplay_trans)
qed

lemma wake_inactive:
  assumes "\<not> suggestopediaActiveRef s"
  shows "sameDisplay s (wake p s)"
proof -
  let ?s = "s\<lparr>runs := filter (\<lambda>r. run_awaits r \<noteq> p) (runs s)\<rparr>"
  have "\<not> suggestopediaActiveRef ?s" using assms by simp
  then have "sameDisplay ?s (fold resume (filter (\<lambda>r. run_awaits r = p) (runs s)) ?s)"
    by (rule fold_resume_inactive)
  then show ?thesis by (simp add: wake_def sameDisplay_def)
qed

lemma resolve_display: "sameDisplay s (resolve p s)"
  by (simp add: resolve_def sameDisplay_def)

lemma resolve_activeRef [simp]: "suggestopediaActiveRef (resolve p s) = suggestopediaActiveRef s"
  by (simp add: resolve_def)

lemma wake_resolve_inactive:
  assumes "\<not> suggestopediaActiveRef s"
  shows "sameDisplay s (wake p (resolve p s))"
proof -
  have "sameDisplay (resolve p s) (wake p (resolve p s))"
    using assms by (intro wake_inactive) simp
  with resolve_display [of s p] show ?thesis by (rule sameDisplay_trans)
qed

lemma stop_inactive:
  "inactive (stopSuggestopedia s) \<and>
   suggestopediaStep (stopSuggestopedia s) = suggestopediaStep s \<and>
   spoken (stopSuggestopedia s) = spoken s \<and>
   runs (stopSuggestopedia s) = runs s \<and>
   promises (stopSuggestopedia s) = promises s \<and>
   timers (stopSuggestopedia s) = timers s \<and>
   vocabulary (stopSuggestopedia s) = vocabulary s \<and>
   suggestopediaWordIndex (stopSuggestopedia s) = suggestopediaWordIndex s"
  by (simp add: stopSuggestopedia_def cancel_def inactive_def)

lemma skip_inactive:
  assumes "inactive s"
  shows "inactive (skipToNextWord s) \<and>
   suggestopediaStep (skipToNextWord s) = suggestopediaStep s \<and>
   spoken (skipToNextWord s) = spoken s \<and>
   runs (skipToNextWord s) = runs s \<and>
   promises (skipToNextWord s) = promises s \<and>
   timers (skipToNextWord s) = timers s \<and>
   vocabulary (skipToNextWord s) = vocabulary s"
  using assms
  by (simp add: skipToNextWord_def runSuggestopediaCycle_def stopSuggestopedia_def cancel_def
      inactive_def Let_def)

lemma deliver_inactive:
  assumes "ev \<noteq> ClickStart" and "inactive s"
  shows "inactive (deliver ev s) \<and>
         suggestopediaStep (deliver ev s) = suggestopediaStep s \<and>
         spoken (deliver ev s) = spoken s"
proof (cases ev)
  case ClickStart
  with assms(1) show ?thesis by simp
next
  case ClickStop
  then show ?thesis using stop_inactive [of s] by simp
next
  case ClickSkip
  then show ?thesis using skip_inactive [OF assms(2)] by simp
next
  case (SpeechEnd p)
  let ?s = "(forget p s)\<lparr>currentUtteranceRef := None\<rparr>"
  have "\<not> suggestopediaActiveRef ?s" using assms(2) by (simp add: inactive_def forget_def)
  then have "sameDisplay ?s (wake p (resolve p ?s))" by (rule wake_resolve_inactive)
  then show ?thesis using assms(2) SpeechEnd
    by (simp add: onend_def sameDisplay_def inactive_def forget_def)
next
  case (SpeechError p)
  let ?s = "(forget p s)\<lparr>warnings := warnings (forget p s) + 1, currentUtteranceRef := None\<rparr>"
  have "\<not> suggestopediaActiveRef ?s" using assms(2) by (simp add: inactive_def forget_def)
  then have "sameDisplay ?s (wake p (resolve p ?s))" by (rule wake_resolve_inactive)
  then show ?thesis using assms(2) SpeechError
    by (simp add: onerror_def sameDisplay_def inactive_def forget_def)
next
  case (Timeout p)
  let ?s = "s\<lparr>timers := filter (\<lambda>t. fst t \<noteq> p) (timers s)\<rparr>"
  have "\<not> suggestopediaActiveRef ?s" using assms(2) by (simp add: inactive_def)
  then have "sameDisplay ?s (wake p (resolve p ?s))" by (rule wake_resolve_inactive)
  then show ?thesis using assms(2) Timeout
    by (simp add: sameDisplay_def inactive_def)
qed

lemma deliverAll_inactive:
  "ClickStart \<notin> set evs \<Longrightarrow> inactive s \<Longrightarrow>
   inactive (deliverAll evs s) \<and>
   suggestopediaStep (deliverAll evs s) = suggestopediaStep s \<and>
   spoken (deliverAll evs s) = spoken s"
proof (induction evs arbitrary: s)
  case Nil
  then show ?case by (simp add: deliverAll_def)
next
  case (Cons ev evs)
  from Cons.prems have ev: "ev \<noteq> ClickStart" and rest: "ClickStart \<notin> set evs" by auto
  note one = deliver_inactive [OF ev Cons.prems(2)]
  from Cons.IH [OF rest, of "deliver ev s"] one
  show ?case by (simp add: deliverAll_def)
qed

text \<open>
  Claim C6, as stated, fails: the component has no cancellation token. With one word
  and no session, stop followed by skip returns the very same state, so no part of the
  state has increased.
\<close>
theorem stop_then_skip_changes_nothing:
  "skipToNextWord (stopSuggestopedia (mounted [\<lparr>german = ''Hund'', bulgarian = ''kuche''\<rparr>])) =
     mounted [\<lparr>german = ''Hund'', bulgarian = ''kuche''\<rparr>]"
  by (simp add: skipToNextWord_def stopSuggestopedia_def cancel_def mounted_def Let_def)

text \<open>
  Claim C6, amended: after stop followed by skip the session is inactive (state and
  ref), no invocation, promise or timer has been created, nothing has been said and
  the step is unchanged; and whatever happens next, short of a new start, the session
  stays inactive, says nothing and leaves the step alone.
\<close>
theorem stop_then_skip_stays_inactive:
  "inactive (skipToNextWord (stopSuggestopedia st)) \<and>
   runs (skipToNextWord (stopSuggestopedia st)) = runs st \<and>
   promises (skipToNextWord (stopSuggestopedia st)) = promises st \<and>
   timers (skipToNextWord (stopSuggestopedia st)) = timers st \<and>
   spoken (skipToNextWord (stopSuggestopedia st)) = spoken st \<and>
   suggestopediaStep (skipToNextWord (stopSuggestopedia st)) = suggestopediaStep st \<and>
   (\<forall>evs. ClickStart \<notin> set evs \<longrightarrow>
      inactive (deliverAll evs (skipToNextWord (stopSuggestopedia st))) \<and>
      spoken (deliverAll evs (skipToNextWord (stopSuggestopedia st))) = spoken st \<and>
      suggestopediaStep (deliverAll evs (skipToNextWord (stopSuggestopedia st))) =
        suggestopediaStep st)"
proof -
  let ?s = "skipToNextWord (stopSuggestopedia st)"
  have a: "inactive (stopSuggestopedia st)" using stop_inactive [of st] by simp
  note b = skip_inactive [OF a]
  have now: "inactive ?s \<and> runs ?s = runs st \<and> promises ?s = promises st \<and>
      timers ?s = timers st \<and> spoken ?s = spoken st \<and>
      suggestopediaStep ?s = suggestopediaStep st"
    using b stop_inactive [of st] by simp
  have later: "\<forall>evs. ClickStart \<notin> set evs \<longrightarrow>
      inactive (deliverAll evs ?s) \<and> spoken (deliverAll evs ?s) = spoken st \<and>
      suggestopediaStep (deliverAll evs ?s) = suggestopediaStep st"
  proof (intro allI impI)
    fix evs :: "Event list" assume "ClickStart \<notin> set evs"
    from deliverAll_inactive [OF this, of ?s] now
    show "inactive (deliverAll evs ?s) \<and> spoken (deliverAll evs ?s) = spoken st \<and>
      suggestopediaStep (deliverAll evs ?s) = suggestopediaStep st"
      by simp
  qed
  from now later show ?thesis by blast
qed

lemma runningAt_runs:
  "runningAt i pc s \<Longrightarrow> \<exists>r. runs s = [r] \<and> run_index r = i \<and> run_word r = vocabulary s ! i \<and>
     run_pc r = pc \<and>
     (if awaitsSpeech pc then run_awaits r \<in> set (queue s)
      else run_awaits r \<in> fst ` set (timers s))"
  by (auto simp: runningAt_def split: list.splits)

lemma start_runningAt:
  assumes "vocabulary st \<noteq> []" and "runs st = []"
  shows "runningAt 0 AfterIntroSpeech (startSuggestopedia st) \<and>
         vocabulary (startSuggestopedia st) = vocabulary st \<and>
         map snd (spoken (startSuggestopedia st)) =
           map snd (spoken st) @ [(german (vocabulary st ! 0), de_DE, 4 / 5)]"
  using assms
  by (simp add: startSuggestopedia_def runSuggestopediaCycle_def speak_def cancel_def Let_def
      runningAt_def stepOf_def awaitsSpeech_def)

lemma step_AfterIntroSpeech:
  assumes "runningAt i AfterIntroSpeech s"
  shows "runningAt i AfterIntroPause (letRun 1 s) \<and> vocabulary (letRun 1 s) = vocabulary s \<and>
         spoken (letRun 1 s) = spoken s"
proof -
  from runningAt_runs [OF assms] obtain r where
    r: "runs s = [r]" "run_index r = i" "run_word r = vocabulary s ! i"
       "run_pc r = AfterIntroSpeech" "run_awaits r \<in> set (queue s)"
    by (auto simp: awaitsSpeech_def)
  from assms have act: "suggestopediaActive s" "suggestopediaActiveRef s"
    "suggestopediaWordIndex s = i" "i < length (vocabulary s)" "suggestopediaStep s = Intro"
    by (simp_all add: runningAt_def stepOf_def)
  show ?thesis using r act
    by (simp add: awaitedEvent_def onend_def forget_def wake_def resolve_def resume_def
        sleep_def Let_def runningAt_def stepOf_def awaitsSpeech_def)
qed

lemma step_AfterIntroPause:
  assumes "runningAt i AfterIntroPause s"
  shows "runningAt i AfterTranslationSpeech (letRun 1 s) \<and>
         vocabulary (letRun 1 s) = vocabulary s \<and>
         map snd (spoken (letRun 1 s)) =
           map snd (spoken s) @ [(bulgarian (vocabulary s ! i), bg_BG, 1)]"
proof -
  from runningAt_runs [OF assms] obtain r where
    r: "runs s = [r]" "run_index r = i" "run_word r = vocabulary s ! i"
       "run_pc r = AfterIntroPause" "run_awaits r \<in> fst ` set (timers s)"
    by (auto simp: awaitsSpeech_def)
  from assms have act: "suggestopediaActive s" "suggestopediaActiveRef s"
    "suggestopediaWordIndex s = i" "i < length (vocabulary s)"
    by (simp_all add: runningAt_def)
  show ?thesis using r act
    by (simp add: awaitedEvent_def wake_def resolve_def resume_def speak_def cancel_def
        Let_def runningAt_def stepOf_def awaitsSpeech_def)
qed

lemma step_AfterTranslationSpeech:
  assumes "runningAt i AfterTranslationSpeech s"
  shows "runningAt i AfterTranslationPause (letRun 1 s) \<and>
         vocabulary (letRun 1 s) = vocabulary s \<and> spoken (letRun 1 s) = spoken s"
proof -
  from runningAt_runs [OF assms] obtain r where
    r: "runs s = [r]" "run_index r = i" "run_word r = vocabulary s ! i"
       "run_pc r = AfterTranslationSpeech" "run_awaits r \<in> set (queue s)"
    by (auto simp: awaitsSpeech_def)
  from assms have act: "suggestopediaActive s" "suggestopediaActiveRef s"
    "suggestopediaWordIndex s = i" "i < length (vocabulary s)" "suggestopediaStep s = Bulgarian"
    by (simp_all add: runningAt_def stepOf_def)
  show ?thesis using r act
    by (simp add: awaitedEvent_def onend_def forget_def wake_def resolve_def resume_def
        sleep_def Let_def runningAt_def stepOf_def awaitsSpeech_def)
qed

lemma step_AfterTranslationPause:
  assumes "runningAt i AfterTranslationPause s"
  shows "runningAt i AfterFixationDwell (letRun 1 s) \<and>
         vocabulary (letRun 1 s) = vocabulary s \<and>
         map snd (spoken (letRun 1 s)) =
           map snd (spoken s) @ [(german (vocabulary s ! i), de_DE, 4 / 5)]"
proof -
  from runningAt_runs [OF assms] obtain r where
    r: "runs s = [r]" "run_index r = i" "run_word r = vocabulary s ! i"
       "run_pc r = AfterTranslationPause" "run_awaits r \<in> fst ` set (timers s)"
    by (auto simp: awaitsSpeech_def)
  from assms have act: "suggestopediaActive s" "suggestopediaActiveRef s"
    "suggestopediaWordIndex s = i" "i < length (vocabulary s)"
    by (simp_all add: runningAt_def)
  show ?thesis using r act
    by (simp add: awaitedEvent_def wake_def resolve_def resume_def speak_def cancel_def
        sleep_def Let_def runningAt_def stepOf_def awaitsSpeech_def)
qed

lemma step_AfterFixationDwell_next:
  assumes "runningAt i AfterFixationDwell s" and "Suc i < length (vocabulary s)"
  shows "runningAt (Suc i) AfterIntroSpeech (letRun 1 s) \<and>
         vocabulary (letRun 1 s) = vocabulary s \<and>
         map snd (spoken (letRun 1 s)) =
           map snd (spoken s) @ [(german (vocabulary s ! Suc i), de_DE, 4 / 5)]"
proof -
  from runningAt_runs [OF assms(1)] obtain r where
    r: "runs s = [r]" "run_index r = i" "run_word r = vocabulary s ! i"
       "run_pc r = AfterFixationDwell" "run_awaits r \<in> fst ` set (timers s)"
    by (auto simp: awaitsSpeech_def)
  from assms(1) have act: "suggestopediaActive s" "suggestopediaActiveRef s"
    "suggestopediaWordIndex s = i" "i < length (vocabulary s)"
    by (simp_all add: runningAt_def)
  show ?thesis using r act assms(2)
    by (simp add: awaitedEvent_def wake_def resolve_def resume_def runSuggestopediaCycle_def
        speak_def cancel_def Let_def runningAt_def stepOf_def awaitsSpeech_def)
qed

lemma step_AfterFixationDwell_last:
  assumes "runningAt i AfterFixationDwell s" and "Suc i = length (vocabulary s)"
  shows "inactive (letRun 1 s) \<and> runs (letRun 1 s) = [] \<and>
         suggestopediaWordIndex (letRun 1 s) = length (vocabulary s) \<and>
         vocabulary (letRun 1 s) = vocabulary s \<and> spoken (letRun 1 s) = spoken s"
proof -
  from runningAt_runs [OF assms(1)] obtain r where
    r: "runs s = [r]" "run_index r = i" "run_word r = vocabulary s ! i"
       "run_pc r = AfterFixationDwell" "run_awaits r \<in> fst ` set (timers s)"
    by (auto simp: awaitsSpeech_def)
  from assms(1) have act: "suggestopediaActive s" "suggestopediaActiveRef s"
    "suggestopediaWordIndex s = i" "i < length (vocabulary s)"
    by (simp_all add: runningAt_def)
  show ?thesis using r act assms(2) [symmetric]
    by (simp add: awaitedEvent_def wake_def resolve_def resume_def runSuggestopediaCycle_def
        stopSuggestopedia_def cancel_def Let_def inactive_def)
qed

lemma letRun_idle: "runs s = [] \<Longrightarrow> letRun n s = s"
  by (cases n) simp_all

lemma letRun_add: "letRun (a + b) s = letRun b (letRun a s)"
proof (induction a arbitrary: s)
  case 0
  show ?case by simp
next
  case (Suc a)
  show ?case
  proof (cases "runs s")
    case Nil
    then show ?thesis by (simp add: letRun_idle)
  next
    case (Cons r rs)
    then show ?thesis using Suc.IH by simp
  qed
qed

lemma letRun_Suc: "letRun (Suc k) s = letRun 1 (letRun k s)"
  using letRun_add [of k 1 s] by simp

lemma pcAt_simps:
  "pcAt 0 = AfterIntroSpeech" "pcAt (Suc 0) = AfterIntroPause" "pcAt 2 = AfterTranslationSpeech"
  "pcAt 3 = AfterTranslationPause" "pcAt 4 = AfterFixationDwell"
  by (simp_all add: pcAt_def)

lemma Suc_div_mod_5:
  "k mod 5 = 0 \<Longrightarrow> Suc k div 5 = k div 5 \<and> Suc k mod 5 = Suc 0"
  "k mod 5 = 1 \<Longrightarrow> Suc k div 5 = k div 5 \<and> Suc k mod 5 = 2"
  "k mod 5 = 2 \<Longrightarrow> Suc k div 5 = k div 5 \<and> Suc k mod 5 = 3"
  "k mod 5 = 3 \<Longrightarrow> Suc k div 5 = k div 5 \<and> Suc k mod 5 = 4"
  "k mod 5 = 4 \<Longrightarrow> Suc k div 5 = Suc (k div 5) \<and> Suc k mod 5 = 0"
  by (simp_all add: mod_Suc div_Suc)

lemma saidUpTo_same:
  assumes "k mod 5 = 0 \<or> k mod 5 = 2"
  shows "saidUpTo v (Suc k) = saidUpTo v k"
proof -
  from assms have d: "Suc k div 5 = k div 5" using Suc_div_mod_5 (1,3) [of k] by auto
  from assms have "heard (Suc k mod 5) = heard (k mod 5)"
  proof
    assume m: "k mod 5 = 0"
    then have "Suc k mod 5 = Suc 0" using Suc_div_mod_5 (1) [of k] by simp
    with m show ?thesis by (simp add: heard_def)
  next
    assume m: "k mod 5 = 2"
    then have "Suc k mod 5 = 3" using Suc_div_mod_5 (3) [of k] by simp
    with m show ?thesis by (simp add: heard_def)
  qed
  with d show ?thesis unfolding saidUpTo_def by simp
qed

lemma saidUpTo_bulgarian:
  assumes "k mod 5 = 1"
  shows "saidUpTo v (Suc k) = saidUpTo v k @ [(bulgarian (v ! (k div 5)), bg_BG, 1)]"
proof -
  from assms have d: "Suc k div 5 = k div 5" and m: "Suc k mod 5 = 2"
    using Suc_div_mod_5 (2) [of k] by simp_all
  show ?thesis unfolding saidUpTo_def d m assms by (simp add: heard_def cues_def)
qed

lemma saidUpTo_german:
  assumes "k mod 5 = 3"
  shows "saidUpTo v (Suc k) = saidUpTo v k @ [(german (v ! (k div 5)), de_DE, 4 / 5)]"
proof -
  from assms have d: "Suc k div 5 = k div 5" and m: "Suc k mod 5 = 4"
    using Suc_div_mod_5 (4) [of k] by simp_all
  show ?thesis unfolding saidUpTo_def d m assms by (simp add: heard_def cues_def)
qed

lemma saidUpTo_next:
  assumes "k mod 5 = 4" and "k div 5 < length v"
  shows "saidUpTo v (Suc k) = saidUpTo v k @ [(german (v ! Suc (k div 5)), de_DE, 4 / 5)]"
proof -
  from assms(1) have d: "Suc k div 5 = Suc (k div 5)" and m: "Suc k mod 5 = 0"
    using Suc_div_mod_5 (5) [of k] by simp_all
  have t: "take (Suc (k div 5)) v = take (k div 5) v @ [v ! (k div 5)]"
    using assms(2) by (rule take_Suc_conv_app_nth)
  show ?thesis unfolding saidUpTo_def d m assms(1) t by (simp add: heard_def cues_def)
qed

lemma uninterrupted_step:
  assumes run: "runningAt (k div 5) (pcAt (k mod 5)) s"
    and said: "map snd (spoken s) = pre @ saidUpTo (vocabulary s) k"
    and lt: "Suc k < 5 * length (vocabulary s)"
  shows "runningAt (Suc k div 5) (pcAt (Suc k mod 5)) (letRun 1 s) \<and>
         vocabulary (letRun 1 s) = vocabulary s \<and>
         map snd (spoken (letRun 1 s)) = pre @ saidUpTo (vocabulary s) (Suc k)"
proof -
  define s' where "s' = letRun 1 s"
  define v where "v = vocabulary s"
  define i where "i = k div 5"
  have cases: "k mod 5 = 0 \<or> k mod 5 = 1 \<or> k mod 5 = 2 \<or> k mod 5 = 3 \<or> k mod 5 = 4"
    by arith
  have i: "i < length v" using lt unfolding i_def v_def by simp
  have "runningAt (Suc k div 5) (pcAt (Suc k mod 5)) s' \<and> vocabulary s' = v \<and>
        map snd (spoken s') = pre @ saidUpTo v (Suc k)"
    using cases
  proof (elim disjE)
    assume m: "k mod 5 = 0"
    then have d: "Suc k div 5 = i" and m': "Suc k mod 5 = Suc 0"
      unfolding i_def using Suc_div_mod_5 (1) [of k] by simp_all
    from run m have "runningAt i AfterIntroSpeech s" unfolding i_def by (simp add: pcAt_simps)
    from step_AfterIntroSpeech [OF this] have
      "runningAt i AfterIntroPause s'" "vocabulary s' = v" "spoken s' = spoken s"
      unfolding s'_def v_def by blast+
    moreover have "saidUpTo v (Suc k) = saidUpTo v k" using m by (intro saidUpTo_same) simp
    ultimately show ?thesis unfolding d m' pcAt_simps using said unfolding v_def [symmetric]
      by simp
  next
    assume m: "k mod 5 = 1"
    then have d: "Suc k div 5 = i" and m': "Suc k mod 5 = 2"
      unfolding i_def using Suc_div_mod_5 (2) [of k] by simp_all
    from run m have "runningAt i AfterIntroPause s" unfolding i_def by (simp add: pcAt_simps)
    from step_AfterIntroPause [OF this] have
      "runningAt i AfterTranslationSpeech s'" "vocabulary s' = v"
      "map snd (spoken s') = map snd (spoken s) @ [(bulgarian (v ! i), bg_BG, 1)]"
      unfolding s'_def v_def by blast+
    moreover have "saidUpTo v (Suc k) = saidUpTo v k @ [(bulgarian (v ! i), bg_BG, 1)]"
      unfolding i_def using m by (rule saidUpTo_bulgarian)
    ultimately show ?thesis unfolding d m' pcAt_simps using said unfolding v_def [symmetric]
      by simp
  next
    assume m: "k mod 5 = 2"
    then have d: "Suc k div 5 = i" and m': "Suc k mod 5 = 3"
      unfolding i_def using Suc_div_mod_5 (3) [of k] by simp_all
    from run m have "runningAt i AfterTranslationSpeech s" unfolding i_def
      by (simp add: pcAt_simps)
    from step_AfterTranslationSpeech [OF this] have
      "runningAt i AfterTranslationPause s'" "vocabulary s' = v" "spoken s' = spoken s"
      unfolding s'_def v_def by blast+
    moreover have "saidUpTo v (Suc k) = saidUpTo v k" using m by (intro saidUpTo_same) simp
    ultimately show ?thesis unfolding d m' pcAt_simps using said unfolding v_def [symmetric]
      by simp
  next
    assume m: "k mod 5 = 3"
    then have d: "Suc k div 5 = i" and m': "Suc k mod 5 = 4"
      unfolding i_def using Suc_div_mod_5 (4) [of k] by simp_all
    from run m have "runningAt i AfterTranslationPause s" unfolding i_def
      by (simp add: pcAt_simps)
    from step_AfterTranslationPause [OF this] have
      "runningAt i AfterFixationDwell s'" "vocabulary s' = v"
      "map snd (spoken s') = map snd (spoken s) @ [(german (v ! i), de_DE, 4 / 5)]"
      unfolding s'_def v_def by blast+
    moreover have "saidUpTo v (Suc k) = saidUpTo v k @ [(german (v ! i), de_DE, 4 / 5)]"
      unfolding i_def using m by (rule saidUpTo_german)
    ultimately show ?thesis unfolding d m' pcAt_simps using said unfolding v_def [symmetric]
      by simp
  next
    assume m: "k mod 5 = 4"
    then have d: "Suc k div 5 = Suc i" and m': "Suc k mod 5 = 0"
      unfolding i_def using Suc_div_mod_5 (5) [of k] by simp_all
    have si: "Suc i < length (vocabulary s)" using lt d by simp
    from run m have "runningAt i AfterFixationDwell s" unfolding i_def by (simp add: pcAt_simps)
    from step_AfterFixationDwell_next [OF this si] have
      "runningAt (Suc i) AfterIntroSpeech s'" "vocabulary s' = v"
      "map snd (spoken s') = map snd (spoken s) @ [(german (v ! Suc i), de_DE, 4 / 5)]"
      unfolding s'_def v_def by blast+
    moreover have "saidUpTo v (Suc k) = saidUpTo v k @ [(german (v ! Suc i), de_DE, 4 / 5)]"
      unfolding i_def using m i [unfolded i_def] by (rule saidUpTo_next)
    ultimately show ?thesis unfolding d m' pcAt_simps using said unfolding v_def [symmetric]
      by simp
  qed
  then show ?thesis unfolding s'_def v_def .
qed

lemma uninterrupted_invariant:
  assumes ne: "vocabulary st \<noteq> []" and idle: "runs st = []"
  shows "k < 5 * length (vocabulary st) \<Longrightarrow>
         runningAt (k div 5) (pcAt (k mod 5)) (letRun k (startSuggestopedia st)) \<and>
         vocabulary (letRun k (startSuggestopedia st)) = vocabulary st \<and>
         map snd (spoken (letRun k (startSuggestopedia st))) =
           map snd (spoken st) @ saidUpTo (vocabulary st) k"
proof (induction k)
  case 0
  from start_runningAt [OF ne idle] show ?case
    by (simp add: pcAt_simps saidUpTo_def heard_def cues_def)
next
  case (Suc k)
  define s where "s = letRun k (startSuggestopedia st)"
  from Suc.prems have k: "k < 5 * length (vocabulary st)" by simp
  from Suc.IH [OF k] have
    run: "runningAt (k div 5) (pcAt (k mod 5)) s" and voc: "vocabulary s = vocabulary st" and
    said: "map snd (spoken s) = map snd (spoken st) @ saidUpTo (vocabulary s) k"
    unfolding s_def by simp_all
  have lt: "Suc k < 5 * length (vocabulary s)" using Suc.prems voc by simp
  have nxt: "letRun (Suc k) (startSuggestopedia st) = letRun 1 s"
    unfolding s_def by (rule letRun_Suc)
  from uninterrupted_step [OF run said lt] show ?case unfolding nxt voc .
qed

lemma uninterrupted_final:
  assumes ne: "vocabulary st \<noteq> []" and idle: "runs st = []"
  shows "inactive (letRun (5 * length (vocabulary st)) (startSuggestopedia st)) \<and>
         runs (letRun (5 * length (vocabulary st)) (startSuggestopedia st)) = [] \<and>
         suggestopediaWordIndex (letRun (5 * length (vocabulary st)) (startSuggestopedia st)) =
           length (vocabulary st) \<and>
         map snd (spoken (letRun (5 * length (vocabulary st)) (startSuggestopedia st))) =
           map snd (spoken st) @ concat (map cues (vocabulary st))"
proof -
  obtain m where m: "length (vocabulary st) = Suc m" using ne by (cases "vocabulary st") auto
  let ?k = "5 * m + 4"
  let ?s = "letRun ?k (startSuggestopedia st)"
  have k: "?k < 5 * length (vocabulary st)" using m by simp
  have d: "?k div 5 = m" and md: "?k mod 5 = 4" by simp_all
  from uninterrupted_invariant [OF ne idle k] have
    run: "runningAt m AfterFixationDwell ?s" and voc: "vocabulary ?s = vocabulary st" and
    said: "map snd (spoken ?s) = map snd (spoken st) @ saidUpTo (vocabulary st) ?k"
    unfolding d md by (simp_all add: pcAt_simps)
  have last: "Suc m = length (vocabulary ?s)" using m voc by simp
  have eq: "letRun (5 * length (vocabulary st)) (startSuggestopedia st) = letRun 1 ?s"
    using letRun_Suc [of ?k "startSuggestopedia st"] m by simp
  have full: "saidUpTo (vocabulary st) ?k = concat (map cues (vocabulary st))"
  proof -
    have "m < length (vocabulary st)" using m by simp
    then have "take (Suc m) (vocabulary st) = take m (vocabulary st) @ [vocabulary st ! m]"
      by (rule take_Suc_conv_app_nth)
    moreover have "take (Suc m) (vocabulary st) = vocabulary st" using m by simp
    ultimately have split: "vocabulary st = take m (vocabulary st) @ [vocabulary st ! m]"
      by simp
    have "concat (map cues (take m (vocabulary st) @ [vocabulary st ! m])) =
        concat (map cues (take m (vocabulary st))) @ cues (vocabulary st ! m)"
      by simp
    then have "concat (map cues (vocabulary st)) =
        concat (map cues (take m (vocabulary st))) @ cues (vocabulary st ! m)"
      using split by simp
    moreover have "take (heard 4) (cues (vocabulary st ! m)) = cues (vocabulary st ! m)"
      by (simp add: heard_def cues_def)
    ultimately show ?thesis unfolding saidUpTo_def d md by simp
  qed
  define s where "s = letRun (5 * m + 4) (startSuggestopedia st)"
  from step_AfterFixationDwell_last [OF run last] have
    "inactive (letRun 1 s)" "runs (letRun 1 s) = []"
    "suggestopediaWordIndex (letRun 1 s) = length (vocabulary s)"
    "spoken (letRun 1 s) = spoken s"
    unfolding s_def by blast+
  moreover have "vocabulary s = vocabulary st" using voc unfolding s_def .
  moreover have "map snd (spoken s) = map snd (spoken st) @ concat (map cues (vocabulary st))"
    using said full unfolding s_def by simp
  ultimately show ?thesis unfolding eq s_def [symmetric] by simp
qed

text \<open>
  Claim C5: a session started on a vocabulary that is not empty, with no invocation
  left over, and let run: after \<open>k\<close> awaited events, \<open>k\<close> below five times the length,
  it is active, shows index \<open>k div 5\<close> and has the one invocation at the place
  \<open>k mod 5\<close> of its cycle, having said the cues of the words so far in order; after
  five events per word the index has passed the end, the session is inactive, no
  invocation is left, each word has had its three cues exactly once in list order, and
  nothing happens any more.
\<close>
theorem uninterrupted_session_visits_each_index_once:
  assumes "vocabulary st \<noteq> []" and "runs st = []"
  shows "(\<forall>k<5 * length (vocabulary st).
            runningAt (k div 5) (pcAt (k mod 5)) (letRun k (startSuggestopedia st)) \<and>
            map snd (spoken (letRun k (startSuggestopedia st))) =
              map snd (spoken st) @ saidUpTo (vocabulary st) k) \<and>
         inactive (letRun (5 * length (vocabulary st)) (startSuggestopedia st)) \<and>
         runs (letRun (5 * length (vocabulary st)) (startSuggestopedia st)) = [] \<and>
         suggestopediaWordIndex (letRun (5 * length (vocabulary st)) (startSuggestopedia st)) =
           length (vocabulary st) \<and>
         map snd (spoken (letRun (5 * length (vocabulary st)) (startSuggestopedia st))) =
           map snd (spoken st) @ concat (map cues (vocabulary st)) \<and>
         (\<forall>n\<ge>5 * length (vocabulary st).
            letRun n (startSuggestopedia st) =
              letRun (5 * length (vocabulary st)) (startSuggestopedia st))"
proof -
  let ?N = "5 * length (vocabulary st)"
  let ?s0 = "startSuggestopedia st"
  note fin = uninterrupted_final [OF assms]
  have during: "\<forall>k<?N. runningAt (k div 5) (pcAt (k mod 5)) (letRun k ?s0) \<and>
            map snd (spoken (letRun k ?s0)) = map snd (spoken st) @ saidUpTo (vocabulary st) k"
    using uninterrupted_invariant [OF assms] by blast
  have after: "\<forall>n\<ge>?N. letRun n ?s0 = letRun ?N ?s0"
  proof (intro allI impI)
    fix n assume "?N \<le> n"
    then obtain d where "n = ?N + d" using le_Suc_ex by blast
    then have "letRun n ?s0 = letRun d (letRun ?N ?s0)" by (simp only: letRun_add)
    also have "\<dots> = letRun ?N ?s0" using fin by (intro letRun_idle) simp
    finally show "letRun n ?s0 = letRun ?N ?s0" .
  qed
  from during fin after show ?thesis by blast
qed

lemmas session_defs =
  deliverAll_def startSuggestopedia_def skipToNextWord_def stopSuggestopedia_def
  runSuggestopediaCycle_def speak_def sleep_def cancel_def resolve_def wake_def resume_def
  onend_def onerror_def forget_def mounted_def hundKatzeHaus_def Let_def

lemma doubleSkip_state:
  "deliverAll doubleSkip (mounted hundKatzeHaus) =
     \<lparr>vocabulary = hundKatzeHaus,
      suggestopediaActive = True, suggestopediaWordIndex = 2,
      suggestopediaStep = Fixation, suggestopediaActiveRef = True,
      currentUtteranceRef = None,
      promises =
        [Fulfilled, Fulfilled, Fulfilled, Fulfilled, Fulfilled, Fulfilled,
         Fulfilled, Fulfilled, Fulfilled, Fulfilled, Fulfilled, Fulfilled,
         Pending, Fulfilled, Fulfilled, Pending, Pending, Pending],
      runs =
        [\<lparr>run_index = 0, run_word = \<lparr>german = ''Hund'', bulgarian = ''kuche''\<rparr>,
          run_pc = AfterFixationDwell, run_awaits = 12\<rparr>,
         \<lparr>run_index = 1, run_word = \<lparr>german = ''Katze'', bulgarian = ''kotka''\<rparr>,
          run_pc = AfterFixationDwell, run_awaits = 15\<rparr>,
         \<lparr>run_index = 2, run_word = \<lparr>german = ''Haus'', bulgarian = ''kashta''\<rparr>,
          run_pc = AfterFixationDwell, run_awaits = 17\<rparr>],
      spoken =
        [(0, ''Hund'', de_DE, 4 / 5), (1, ''Katze'', de_DE, 4 / 5),
         (3, ''Haus'', de_DE, 4 / 5), (5, ''kuche'', bg_BG, 1),
         (7, ''kotka'', bg_BG, 1), (9, ''kashta'', bg_BG, 1),
         (11, ''Hund'', de_DE, 4 / 5), (14, ''Katze'', de_DE, 4 / 5),
         (16, ''Haus'', de_DE, 4 / 5)],
      queue = [16], interrupted = [],
      timers = [(12, 4500), (15, 4500), (17, 4500)], warnings = 8\<rparr>"
  by (simp add: session_defs doubleSkip_def)

lemma doubleSkip_feasible: "feasible (doubleSkip @ [Timeout 12]) (mounted hundKatzeHaus)"
  by (simp add: session_defs doubleSkip_def)

lemma skip_once_state:
  "deliverAll [ClickStart, ClickSkip] (mounted hundKatzeHaus) =
     \<lparr>vocabulary = hundKatzeHaus,
      suggestopediaActive = True, suggestopediaWordIndex = 1,
      suggestopediaStep = Intro, suggestopediaActiveRef = True,
      currentUtteranceRef = Some 1,
      promises = [Pending, Pending],
      runs =
        [\<lparr>run_index = 0, run_word = \<lparr>german = ''Hund'', bulgarian = ''kuche''\<rparr>,
          run_pc = AfterIntroSpeech, run_awaits = 0\<rparr>,
         \<lparr>run_index = 1, run_word = \<lparr>german = ''Katze'', bulgarian = ''kotka''\<rparr>,
          run_pc = AfterIntroSpeech, run_awaits = 1\<rparr>],
      spoken = [(0, ''Hund'', de_DE, 4 / 5), (1, ''Katze'', de_DE, 4 / 5)],
      queue = [1], interrupted = [0], timers = [], warnings = 0\<rparr>"
  by (simp add: session_defs)

lemma skip_once_then_old_run_state:
  "deliverAll [ClickStart, ClickSkip, SpeechError 0, Timeout 2] (mounted hundKatzeHaus) =
     \<lparr>vocabulary = hundKatzeHaus,
      suggestopediaActive = True, suggestopediaWordIndex = 1,
      suggestopediaStep = Bulgarian, suggestopediaActiveRef = True,
      currentUtteranceRef = Some 3,
      promises = [Fulfilled, Pending, Fulfilled, Pending],
      runs =
        [\<lparr>run_index = 1, run_word = \<lparr>german = ''Katze'', bulgarian = ''kotka''\<rparr>,
          run_pc = AfterIntroSpeech, run_awaits = 1\<rparr>,
         \<lparr>run_index = 0, run_word = \<lparr>german = ''Hund'', bulgarian = ''kuche''\<rparr>,
          run_pc = AfterTranslationSpeech, run_awaits = 3\<rparr>],
      spoken =
        [(0, ''Hund'', de_DE, 4 / 5), (1, ''Katze'', de_DE, 4 / 5), (3, ''kuche'', bg_BG, 1)],
      queue = [3], interrupted = [1], timers = [], warnings = 1\<rparr>"
  by (simp add: session_defs)

text \<open>
  Claim C1 on the code, at a vocabulary of three words. The session is started and
  skipped at once; invocation 0 (superseded) and invocation 1 (the latest) are both
  suspended, the index shown is 1 and the step is the intro. Then the cancelled first
  utterance reports its error and the 500 ms timer of invocation 0 fires: invocation 0
  goes on, sets the step to the translation and speaks the translation of word 0,
  while the index shown is 1 and invocation 1 is still in its intro. And after two
  skips the index shown is 2, until the dwell of invocation 0 ends: it then starts the
  cycle of word 1, and the index shown goes back to 1 and the step to the intro.
\<close>
theorem superseded_run_sets_step_after_skip:
  "suggestopediaWordIndex (deliverAll [ClickStart, ClickSkip] (mounted hundKatzeHaus)) = 1 \<and>
   suggestopediaStep (deliverAll [ClickStart, ClickSkip] (mounted hundKatzeHaus)) = Intro \<and>
   map run_index (runs (deliverAll [ClickStart, ClickSkip] (mounted hundKatzeHaus))) = [0, 1] \<and>
   suggestopediaWordIndex
     (deliverAll [ClickStart, ClickSkip, SpeechError 0, Timeout 2] (mounted hundKatzeHaus)) = 1 \<and>
   suggestopediaStep
     (deliverAll [ClickStart, ClickSkip, SpeechError 0, Timeout 2] (mounted hundKatzeHaus)) =
     Bulgarian \<and>
   map snd (spoken
     (deliverAll [ClickStart, ClickSkip, SpeechError 0, Timeout 2] (mounted hundKatzeHaus))) =
     [(''Hund'', de_DE, 4 / 5), (''Katze'', de_DE, 4 / 5), (''kuche'', bg_BG, 1)] \<and>
   runs (deliverAll [ClickStart, ClickSkip, SpeechError 0, Timeout 2] (mounted hundKatzeHaus)) =
     [\<lparr>run_index = 1, run_word = \<lparr>german = ''Katze'', bulgarian = ''kotka''\<rparr>,
       run_pc = AfterIntroSpeech, run_awaits = 1\<rparr>,
      \<lparr>run_index = 0, run_word = \<lparr>german = ''Hund'', bulgarian = ''kuche''\<rparr>,
       run_pc = AfterTranslationSpeech, run_awaits = 3\<rparr>] \<and>
   feasible (doubleSkip @ [Timeout 12]) (mounted hundKatzeHaus) \<and>
   suggestopediaWordIndex (deliverAll doubleSkip (mounted hundKatzeHaus)) = 2 \<and>
   suggestopediaStep (deliverAll doubleSkip (mounted hundKatzeHaus)) = Fixation \<and>
   map run_index (runs (deliverAll doubleSkip (mounted hundKatzeHaus))) = [0, 1, 2] \<and>
   suggestopediaWordIndex (deliver (Timeout 12) (deliverAll doubleSkip (mounted hundKatzeHaus))) = 1 \<and>
   suggestopediaStep (deliver (Timeout 12) (deliverAll doubleSkip (mounted hundKatzeHaus))) = Intro"
proof -
  have a: "suggestopediaWordIndex (deliverAll [ClickStart, ClickSkip] (mounted hundKatzeHaus)) = 1 \<and>
      suggestopediaStep (deliverAll [ClickStart, ClickSkip] (mounted hundKatzeHaus)) = Intro \<and>
      map run_index (runs (deliverAll [ClickStart, ClickSkip] (mounted hundKatzeHaus))) = [0, 1]"
    unfolding skip_once_state by simp
  have b: "suggestopediaWordIndex
       (deliverAll [ClickStart, ClickSkip, SpeechError 0, Timeout 2] (mounted hundKatzeHaus)) = 1 \<and>
     suggestopediaStep
       (deliverAll [ClickStart, ClickSkip, SpeechError 0, Timeout 2] (mounted hundKatzeHaus)) =
       Bulgarian \<and>
     map snd (spoken
       (deliverAll [ClickStart, ClickSkip, SpeechError 0, Timeout 2] (mounted hundKatzeHaus))) =
       [(''Hund'', de_DE, 4 / 5), (''Katze'', de_DE, 4 / 5), (''kuche'', bg_BG, 1)] \<and>
     runs (deliverAll [ClickStart, ClickSkip, SpeechError 0, Timeout 2] (mounted hundKatzeHaus)) =
       [\<lparr>run_index = 1, run_word = \<lparr>german = ''Katze'', bulgarian = ''kotka''\<rparr>,
         run_pc = AfterIntroSpeech, run_awaits = 1\<rparr>,
        \<lparr>run_index = 0, run_word = \<lparr>german = ''Hund'', bulgarian = ''kuche''\<rparr>,
         run_pc = AfterTranslationSpeech, run_awaits = 3\<rparr>]"
    unfolding skip_once_then_old_run_state by simp
  have c: "suggestopediaWordIndex (deliverAll doubleSkip (mounted hundKatzeHaus)) = 2 \<and>
      suggestopediaStep (deliverAll doubleSkip (mounted hundKatzeHaus)) = Fixation \<and>
      map run_index (runs (deliverAll doubleSkip (mounted hundKatzeHaus))) = [0, 1, 2]"
    unfolding doubleSkip_state by simp
  have d: "suggestopediaWordIndex
        (deliver (Timeout 12) (deliverAll doubleSkip (mounted hundKatzeHaus))) = 1 \<and>
      suggestopediaStep
        (deliver (Timeout 12) (deliverAll doubleSkip (mounted hundKatzeHaus))) = Intro"
    unfolding doubleSkip_state
    by (simp add: wake_def resolve_def resume_def runSuggestopediaCycle_def speak_def
        cancel_def hundKatzeHaus_def Let_def)
  from a b c d doubleSkip_feasible show ?thesis by blast
qed

text \<open>Claim C5 at the vocabulary of three words.\<close>
theorem uninterrupted_session_visits_each_index_once_witness:
  "vocabulary (mounted hundKatzeHaus) \<noteq> [] \<and> runs (mounted hundKatzeHaus) = [] \<and>
   runningAt 1 AfterTranslationSpeech (letRun 7 (startSuggestopedia (mounted hundKatzeHaus))) \<and>
   inactive (letRun 15 (startSuggestopedia (mounted hundKatzeHaus))) \<and>
   suggestopediaWordIndex (letRun 15 (startSuggestopedia (mounted hundKatzeHaus))) = 3 \<and>
   map snd (spoken (letRun 15 (startSuggestopedia (mounted hundKatzeHaus)))) =
     [(''Hund'', de_DE, 4 / 5), (''kuche'', bg_BG, 1), (''Hund'', de_DE, 4 / 5),
      (''Katze'', de_DE, 4 / 5), (''kotka'', bg_BG, 1), (''Katze'', de_DE, 4 / 5),
      (''Haus'', de_DE, 4 / 5), (''kashta'', bg_BG, 1), (''Haus'', de_DE, 4 / 5)]"
proof -
  have h1: "vocabulary (mounted hundKatzeHaus) \<noteq> []"
    by (simp add: mounted_def hundKatzeHaus_def)
  have h2: "runs (mounted hundKatzeHaus) = []" by (simp add: mounted_def)
  have n: "5 * length (vocabulary (mounted hundKatzeHaus)) = 15"
    by (simp add: mounted_def hundKatzeHaus_def)
  note t = uninterrupted_session_visits_each_index_once [OF h1 h2, unfolded n]
  from t have "(7::nat) < 15 \<longrightarrow>
      runningAt (7 div 5) (pcAt (7 mod 5)) (letRun 7 (startSuggestopedia (mounted hundKatzeHaus)))"
    by blast
  then have a: "runningAt 1 AfterTranslationSpeech
      (letRun 7 (startSuggestopedia (mounted hundKatzeHaus)))"
    by (simp add: pcAt_def)
  from t have b: "inactive (letRun 15 (startSuggestopedia (mounted hundKatzeHaus)))"
    and c: "suggestopediaWordIndex (letRun 15 (startSuggestopedia (mounted hundKatzeHaus))) =
      length (vocabulary (mounted hundKatzeHaus))"
    and d: "map snd (spoken (letRun 15 (startSuggestopedia (mounted hundKatzeHaus)))) =
      map snd (spoken (mounted hundKatzeHaus)) @
      concat (map cues (vocabulary (mounted hundKatzeHaus)))"
    by blast+
  have c': "suggestopediaWordIndex (letRun 15 (startSuggestopedia (mounted hundKatzeHaus))) = 3"
    using c by (simp add: mounted_def hundKatzeHaus_def)
  have d': "map snd (spoken (letRun 15 (startSuggestopedia (mounted hundKatzeHaus)))) =
     [(''Hund'', de_DE, 4 / 5), (''kuche'', bg_BG, 1), (''Hund'', de_DE, 4 / 5),
      (''Katze'', de_DE, 4 / 5), (''kotka'', bg_BG, 1), (''Katze'', de_DE, 4 / 5),
      (''Haus'', de_DE, 4 / 5), (''kashta'', bg_BG, 1), (''Haus'', de_DE, 4 / 5)]"
    unfolding d by (simp add: mounted_def hundKatzeHaus_def cues_def)
  from h1 h2 a b c' d' show ?thesis by blast
qed

text \<open>Claim C6, amended, at a session stopped and skipped during its first word.\<close>
theorem stop_then_skip_stays_inactive_witness:
  "ClickStart \<notin> set [SpeechError 0, Timeout 1, ClickSkip] \<and>
   inactive (deliverAll [SpeechError 0, Timeout 1, ClickSkip]
     (skipToNextWord (stopSuggestopedia (startSuggestopedia (mounted hundKatzeHaus))))) \<and>
   spoken (deliverAll [SpeechError 0, Timeout 1, ClickSkip]
     (skipToNextWord (stopSuggestopedia (startSuggestopedia (mounted hundKatzeHaus))))) =
     [(0, ''Hund'', de_DE, 4 / 5)]"
proof -
  have h: "ClickStart \<notin> set [SpeechError 0, Timeout 1, ClickSkip]" by simp
  have s: "spoken (startSuggestopedia (mounted hundKatzeHaus)) = [(0, ''Hund'', de_DE, 4 / 5)]"
    by (simp add: session_defs)
  from stop_then_skip_stays_inactive [of "startSuggestopedia (mounted hundKatzeHaus)"]
  have "ClickStart \<notin> set [SpeechError 0, Timeout 1, ClickSkip] \<longrightarrow>
      inactive (deliverAll [SpeechError 0, Timeout 1, ClickSkip]
        (skipToNextWord (stopSuggestopedia (startSuggestopedia (mounted hundKatzeHaus))))) \<and>
      spoken (deliverAll [SpeechError 0, Timeout 1, ClickSkip]
        (skipToNextWord (stopSuggestopedia (startSuggestopedia (mounted hundKatzeHaus))))) =
      spoken (startSuggestopedia (mounted hundKatzeHaus))"
    by blast
  with h s show ?thesis by simp
qed

section \<open>The promise of a speech cue\<close>





lemma keeps_speak: "p < length (promises s) \<Longrightarrow> keeps p s (snd (speak t l r s))"
  by (auto simp: keeps_def speak_def cancel_def held_def Let_def nth_append)

lemma keeps_sleep: "p < length (promises s) \<Longrightarrow> keeps p s (snd (sleep ms s))"
  by (auto simp: keeps_def sleep_def held_def Let_def nth_append)

























end
